theory Spec2Isabelle
  imports
    Complex_Main
    "HOL-Library.Char_ord"
    "HOL-Library.List_Lexorder"
    "HOL-Library.Product_Lexorder"
    "HOL-Library.Sublist"
    "HOL-Library.Multiset"
begin

section \<open>The flashcards table\<close>

text \<open>
  One row of the table \<^verbatim>\<open>flashcards\<close> created by \<^verbatim>\<open>init_db\<close>:
  \<^verbatim>\<open>id INTEGER PRIMARY KEY, lesson TEXT, front TEXT, back TEXT, selected INTEGER DEFAULT 0,
  copies INTEGER DEFAULT 1, printed_count INTEGER DEFAULT 0, last_printed TEXT\<close>.
  The program only ever writes 0 or 1 to \<^verbatim>\<open>selected\<close>, so the column is a \<open>bool\<close>;
  \<^verbatim>\<open>last_printed\<close> is NULL until the first print, so it is an \<open>option\<close>.
  A character of a text column is one \<open>char\<close> (the 8-bit repertoire).

  The columns \<^verbatim>\<open>id\<close> and \<^verbatim>\<open>copies\<close> hold signed 64-bit integers. So does
  \<^verbatim>\<open>printed_count\<close>, until a sum computed by the engine leaves that range: the engine
  then stores a floating-point number in the column. Such a number is whole; the field
  \<open>printed_count\<close> is the value of the column, and \<open>printed_real\<close> tells whether it is
  stored as a floating-point number (\<^verbatim>\<open>typeof(printed_count) = 'real'\<close>).
\<close>

record card =
  cid :: int
  lesson :: string
  front :: string
  "back" :: string
  selected :: bool
  copies :: int
  printed_count :: int
  printed_real :: bool
  last_printed :: "string option"

text \<open>
  The database file is the list of its rows, in the order in which the engine hands out
  rows whose sort keys are equal: SQL fixes the order of a result only as far as its
  \<^verbatim>\<open>ORDER BY\<close> terms go. SQLite hands out the rows of these queries by ascending rowid,
  which for this table is the id; of a table as SQLite reads it, \<open>map cid\<close> is sorted.
\<close>

type_synonym db = "card list"

text \<open>\<^verbatim>\<open>ORDER BY lesson, id\<close> and \<^verbatim>\<open>ORDER BY lesson\<close> under the BINARY collation.\<close>

definition order_by_lesson_id :: "card list \<Rightarrow> card list" where
  "order_by_lesson_id rows = sort_key (\<lambda>c. (lesson c, cid c)) rows"

definition order_by_lesson :: "card list \<Rightarrow> card list" where
  "order_by_lesson rows = sort_key lesson rows"

definition selected_ids :: "db \<Rightarrow> int set" where
  "selected_ids d = cid ` {c \<in> set d. selected c}"


subsection \<open>Selection updates\<close>

text \<open>
  \<^verbatim>\<open>select_all_unprinted\<close>: the two statements
  \<^verbatim>\<open>UPDATE flashcards SET selected=0\<close> and
  \<^verbatim>\<open>UPDATE flashcards SET selected=1 WHERE printed_count=0\<close>, in this order.
\<close>

definition select_all_unprinted :: "db \<Rightarrow> db" where
  "select_all_unprinted d =
     map (\<lambda>c. if printed_count c = 0 then c\<lparr>selected := True\<rparr> else c)
       (map (\<lambda>c. c\<lparr>selected := False\<rparr>) d)"

subsection \<open>Print statistics\<close>

text \<open>The range of a signed 64-bit integer.\<close>

definition int64 :: "int \<Rightarrow> bool" where
  "int64 n \<longleftrightarrow> - (2 ^ 63) \<le> n \<and> n < 2 ^ 63"

text \<open>
  The double nearest to a whole number: the number keeps its 53 leading binary digits,
  rounded to nearest, ties to the even one. This is the conversion of an integer to
  floating point, and the rounding of a floating-point sum of whole numbers.
\<close>

function bit_count :: "int \<Rightarrow> nat" where
  "bit_count n = (if n \<le> 0 then 0 else Suc (bit_count (n div 2)))"
  by pat_completeness auto
termination
  by (relation "measure nat") auto

declare bit_count.simps [simp del]

definition round_double :: "int \<Rightarrow> int" where
  "round_double n =
     (let m = \<bar>n\<bar> in
      if m < 2 ^ 53 then n
      else
        let s = 2 ^ (bit_count m - 53);
            q = m div s;
            r = m mod s;
            q' = (if s < 2 * r \<or> (2 * r = s \<and> odd q) then q + 1 else q)
        in sgn n * (q' * s))"

text \<open>
  \<^verbatim>\<open>printed_count + copies\<close> as SQLite computes and stores it. Two integers are added as
  integers when the sum is in the 64-bit range; otherwise, and when \<^verbatim>\<open>printed_count\<close> is
  already a floating-point number, the operands are added as doubles. A floating-point
  result stored in the column, which has INTEGER affinity, becomes an integer again when
  it lies strictly between the least and the greatest 64-bit integer.
\<close>

definition add_copies :: "int \<times> bool \<Rightarrow> int \<Rightarrow> int \<times> bool" where
  "add_copies cnt n =
     (case cnt of (v, is_real) \<Rightarrow>
        if \<not> is_real \<and> int64 (v + n) then (v + n, False)
        else
          let r = round_double (round_double v + round_double n)
          in (r, \<not> (- (2 ^ 63) < r \<and> r < 2 ^ 63 - 1)))"

text \<open>
  The \<^verbatim>\<open>SET\<close> clause of the statement at the end of \<^verbatim>\<open>print_selected\<close> on one row, and
  the statement:
  \<^verbatim>\<open>UPDATE flashcards SET printed_count = printed_count + copies, last_printed = ?
  WHERE selected = 1\<close>.
\<close>

definition mark_printed :: "string \<Rightarrow> card \<Rightarrow> card" where
  "mark_printed now c =
     (case add_copies (printed_count c, printed_real c) (copies c) of
        (v, is_real) \<Rightarrow>
          c\<lparr>printed_count := v, printed_real := is_real, last_printed := Some now\<rparr>)"

definition update_print_stats :: "string \<Rightarrow> db \<Rightarrow> db" where
  "update_print_stats now d = map (\<lambda>c. if selected c then mark_printed now c else c) d"

section \<open>Collecting the cards to print\<close>

text \<open>
  A card to render is the tuple \<^verbatim>\<open>(lesson, front, back)\<close>. The loop at the head of
  \<^verbatim>\<open>print_selected\<close> runs over
  \<^verbatim>\<open>SELECT * FROM flashcards WHERE selected=1 ORDER BY lesson\<close> and appends the tuple
  \<^verbatim>\<open>range(copies)\<close> times, which is no time at all when \<^verbatim>\<open>copies\<close> is not positive.
\<close>

type_synonym render_card = "string \<times> string \<times> string"

definition print_rows :: "db \<Rightarrow> card list" where
  "print_rows d = order_by_lesson (filter selected d)"

definition expand :: "card \<Rightarrow> render_card list" where
  "expand c = replicate (nat (copies c)) (lesson c, front c, back c)"

definition print_collect :: "db \<Rightarrow> render_card list" where
  "print_collect d = concat (map expand (print_rows d))"

section \<open>Settings and the printer\<close>

text \<open>
  The settings dictionary, as far as printing reads it. The three numeric entries are
  read through Python's \<^verbatim>\<open>int(...)\<close>; a field holds what that call yields: \<open>Some n\<close>,
  or \<open>None\<close> when it raises \<^verbatim>\<open>ValueError\<close>.
\<close>

record settings =
  cards_per_page :: "int option"
  font_size :: "int option"
  pen_width :: "int option"
  pen_color :: string
  orientation :: string

text \<open>
  What \<^verbatim>\<open>render_document\<close> asks of the printer: \<^verbatim>\<open>printer.resolution()\<close>, the
  orientation of its page layout, and whether \<^verbatim>\<open>painter.begin(printer)\<close> succeeds.
\<close>

record printer =
  resolution :: int
  landscape :: bool
  begin_ok :: bool

text \<open>The state stored by \<^verbatim>\<open>print_selected\<close> for the renderer.\<close>

record job =
  cards_to_print :: "render_card list"
  print_cpp :: int
  print_font_size :: int

datatype py_error = ValueError | ZeroDivisionError

section \<open>Rendering\<close>

text \<open>
  The loop variables \<^verbatim>\<open>i\<close>, \<^verbatim>\<open>r\<close> and \<^verbatim>\<open>c\<close> of a painted card.
\<close>

record cell =
  pos :: nat
  row :: nat
  col :: nat

text \<open>
  The calls on the painter. Each carries the cell it is painted for and the rectangle
  handed to Qt. The source computes the rectangle in floating point; the model computes
  it in exact rationals.
  \<^item> \<open>DrawRect\<close>: \<^verbatim>\<open>painter.drawRect(x, y, card_w, card_h)\<close> with the cosmetic pen's colour
    and width;
  \<^item> \<open>DrawLesson\<close>: the lesson label, with the arguments of \<^verbatim>\<open>painter.boundingRect\<close>;
  \<^item> \<open>DrawText\<close>: \<^verbatim>\<open>painter.drawText(x + 10, y + 20, card_w - 20, card_h - 40, ...)\<close>
    with the point size of the content font.
\<close>

datatype paint =
    DrawRect cell rat rat rat rat string int
  | DrawLesson cell rat rat rat rat string
  | DrawText cell rat rat rat rat int string

fun cell_of :: "paint \<Rightarrow> cell" where
  "cell_of (DrawRect cl x y w h pc pw) = cl"
| "cell_of (DrawLesson cl x y w h l) = cl"
| "cell_of (DrawText cl x y w h fs t) = cl"

text \<open>What reaches the printer: a painter call, or \<^verbatim>\<open>printer.newPage()\<close>.\<close>

datatype event = Paint paint | NewPage

text \<open>The values \<^verbatim>\<open>render_document\<close> computes before its loop.\<close>

record layout =
  rows :: int
  card_w :: rat
  card_h :: rat
  l_pen_color :: string
  l_pen_width :: int
  l_font_size :: int

text \<open>Python's \<^verbatim>\<open>int(x)\<close> on a float: truncation towards zero.\<close>

definition py_trunc :: "rat \<Rightarrow> int" where
  "py_trunc q = (if 0 \<le> q then \<lfloor>q\<rfloor> else \<lceil>q\<rceil>)"

text \<open>The body of the first \<^verbatim>\<open>for i in range(cpp)\<close> loop, after the \<^verbatim>\<open>break\<close> test.\<close>

definition draw_front :: "layout \<Rightarrow> nat \<Rightarrow> render_card \<Rightarrow> paint list" where
  "draw_front L i rc =
     (case rc of (lesson_text, front_text, _) \<Rightarrow>
        let r = i div 2;
            c = i mod 2;
            x = of_nat c * card_w L;
            y = of_nat r * card_h L;
            cl = \<lparr>pos = i, row = r, col = c\<rparr>
        in [DrawRect cl x y (card_w L) (card_h L) (l_pen_color L) (l_pen_width L),
            DrawLesson cl (x + 10) (y + 300) (card_w L - 400) 30 lesson_text,
            DrawText cl (x + 10) (y + 20) (card_w L - 20) (card_h L - 40) (l_font_size L)
              front_text])"

text \<open>The body of the second loop: \<^verbatim>\<open>c = 1 - (i % 2)\<close>, the back text only.\<close>

definition draw_back :: "layout \<Rightarrow> nat \<Rightarrow> render_card \<Rightarrow> paint list" where
  "draw_back L i rc =
     (case rc of (_, _, back_text) \<Rightarrow>
        let r = i div 2;
            c = 1 - (i mod 2);
            x = of_nat c * card_w L;
            y = of_nat r * card_h L;
            cl = \<lparr>pos = i, row = r, col = c\<rparr>
        in [DrawText cl (x + 10) (y + 20) (card_w L - 20) (card_h L - 40) (l_font_size L)
              back_text])"

text \<open>
  The two \<^verbatim>\<open>for i in range(cpp)\<close> loops, over the list of the values of \<^verbatim>\<open>i\<close>; they
  stop at the first \<^verbatim>\<open>i\<close> with \<^verbatim>\<open>index + i >= len(cards)\<close>. Inside the loops
  \<^verbatim>\<open>index + i\<close> is never negative: \<^verbatim>\<open>index\<close> starts at 0 and only grows when
  \<^verbatim>\<open>range(cpp)\<close> is not empty.
\<close>

fun front_side :: "layout \<Rightarrow> render_card list \<Rightarrow> int \<Rightarrow> nat list \<Rightarrow> paint list" where
  "front_side L cards index [] = []"
| "front_side L cards index (i # is) =
     (if index + int i \<ge> int (length cards) then []
      else draw_front L i (cards ! nat (index + int i)) @ front_side L cards index is)"

fun back_side :: "layout \<Rightarrow> render_card list \<Rightarrow> int \<Rightarrow> nat list \<Rightarrow> paint list" where
  "back_side L cards index [] = []"
| "back_side L cards index (i # is) =
     (if index + int i \<ge> int (length cards) then []
      else draw_back L i (cards ! nat (index + int i)) @ back_side L cards index is)"

text \<open>
  The loop \<^verbatim>\<open>while index < len(cards)\<close>: front side, \<^verbatim>\<open>newPage\<close>, back side,
  \<^verbatim>\<open>index += cpp\<close>, and another \<^verbatim>\<open>newPage\<close> when cards are left. The last argument is
  what has reached the printer so far. The loop does not end when \<^verbatim>\<open>cpp\<close> is not
  positive and a card is left; no result is \<open>None\<close>.
\<close>

partial_function (option) render_loop ::
  "layout \<Rightarrow> render_card list \<Rightarrow> int \<Rightarrow> int \<Rightarrow> event list \<Rightarrow> event list option" where
  "render_loop L cards cpp index out =
     (if index < int (length cards) then
        render_loop L cards cpp (index + cpp)
          (out @ map Paint (front_side L cards index [0..<nat cpp]) @ [NewPage]
               @ map Paint (back_side L cards index [0..<nat cpp])
               @ (if index + cpp < int (length cards) then [NewPage] else []))
      else Some out)"

declare render_loop.simps [code]

text \<open>
  The geometry \<^verbatim>\<open>render_document\<close> computes before its loop, for the pen width \<open>pw\<close>:
  the page is Letter, 8.5 by 11 inches, swapped in landscape; \<^verbatim>\<open>rows = cpp // 2\<close>,
  \<^verbatim>\<open>card_w = page_rect.width() / 2\<close>, \<^verbatim>\<open>card_h = page_rect.height() / rows\<close>.
\<close>

definition page_layout :: "settings \<Rightarrow> printer \<Rightarrow> job \<Rightarrow> int \<Rightarrow> layout" where
  "page_layout st pr jb pw =
     (let dpi = resolution pr;
          page_w_in = (if landscape pr then 11 else 17 / 2);
          page_h_in = (if landscape pr then 17 / 2 else 11);
          page_width_px = py_trunc (page_w_in * of_int dpi);
          page_height_px = py_trunc (page_h_in * of_int dpi);
          rws = print_cpp jb div 2
      in \<lparr>rows = rws, card_w = of_int page_width_px / 2,
          card_h = of_int page_height_px / of_int rws,
          l_pen_color = pen_color st, l_pen_width = pw,
          l_font_size = print_font_size jb\<rparr>)"

text \<open>
  \<^verbatim>\<open>render_document\<close>. It returns at once when the painter cannot begin; the pen width is
  read with \<^verbatim>\<open>int(...)\<close>, which may raise \<^verbatim>\<open>ValueError\<close>; the division by \<^verbatim>\<open>rows\<close>
  raises \<^verbatim>\<open>ZeroDivisionError\<close> when \<^verbatim>\<open>rows\<close> is 0; then the loop runs from
  \<^verbatim>\<open>index = 0\<close>.
\<close>

definition render_document ::
  "settings \<Rightarrow> printer \<Rightarrow> job \<Rightarrow> (py_error + event list) option" where
  "render_document st pr jb =
     (if \<not> begin_ok pr then Some (Inr [])
      else case pen_width st of
        None \<Rightarrow> Some (Inl ValueError)
      | Some pw \<Rightarrow>
         (if print_cpp jb div 2 = 0 then Some (Inl ZeroDivisionError)
          else map_option Inr
            (render_loop (page_layout st pr jb pw) (cards_to_print jb) (print_cpp jb) 0 [])))"

text \<open>The pages of a trace: \<^verbatim>\<open>newPage\<close> closes the current page and opens the next.\<close>

fun pages_of :: "event list \<Rightarrow> paint list list" where
  "pages_of [] = [[]]"
| "pages_of (NewPage # es) = [] # pages_of es"
| "pages_of (Paint p # es) = (case pages_of es of pg # pgs \<Rightarrow> (p # pg) # pgs | [] \<Rightarrow> [[p]])"

text \<open>
  The pages \<^verbatim>\<open>render_document\<close> prints; none when it raises or does not return.
\<close>

definition doc_pages :: "settings \<Rightarrow> printer \<Rightarrow> job \<Rightarrow> paint list list" where
  "doc_pages st pr jb =
     (case render_document st pr jb of
        Some (Inr tr) \<Rightarrow> pages_of tr
      | _ \<Rightarrow> [])"

text \<open>
  Names for the statements: the number of chunks of \<open>cpp\<close> cards, which is the number
  of cards over \<open>cpp\<close> rounded up, and the two sides painted for the chunk number \<open>k\<close>,
  which starts at \<^verbatim>\<open>index = k * cpp\<close>.
\<close>

definition chunk_count :: "render_card list \<Rightarrow> int \<Rightarrow> nat" where
  "chunk_count cards cpp = (length cards + nat cpp - 1) div nat cpp"

definition front_page :: "layout \<Rightarrow> render_card list \<Rightarrow> int \<Rightarrow> nat \<Rightarrow> paint list" where
  "front_page L cards cpp k = front_side L cards (int k * cpp) [0..<nat cpp]"

definition back_page :: "layout \<Rightarrow> render_card list \<Rightarrow> int \<Rightarrow> nat \<Rightarrow> paint list" where
  "back_page L cards cpp k = back_side L cards (int k * cpp) [0..<nat cpp]"

section \<open>Printing the selection\<close>

text \<open>
  How \<^verbatim>\<open>print_selected\<close> ends: the two message boxes with an early return, the preview
  dialog closed without acceptance, or the statistics written.
\<close>

datatype setting_name = CardsPerPage | FontSize

datatype outcome = NothingToPrint | InvalidSetting setting_name | Cancelled | Printed

text \<open>
  The modal preview dialog, \<^verbatim>\<open>preview.exec()\<close>: whether it is accepted, and what happens
  to the database file while it is open (the program reopens the file afterwards; the
  identity when nothing else writes to it).
\<close>

record preview =
  accepted :: bool
  meanwhile :: "db \<Rightarrow> db"

text \<open>
  The result of \<^verbatim>\<open>print_selected\<close>: how it ended, what \<^verbatim>\<open>render_document\<close> yields on
  the \<^verbatim>\<open>paintRequested\<close> signal of the dialog (\<open>None\<close> when the dialog is never
  created), and the database file afterwards.
\<close>

record print_result =
  ended :: outcome
  rendered :: "(py_error + event list) option option"
  stored :: db

text \<open>The part of \<^verbatim>\<open>print_selected\<close> from the creation of the printer on.\<close>

definition run_preview ::
  "settings \<Rightarrow> printer \<Rightarrow> preview \<Rightarrow> string \<Rightarrow> job \<Rightarrow> db \<Rightarrow> print_result" where
  "run_preview st pr pv now jb d =
     (let pr' = pr\<lparr>landscape := (orientation st = ''Landscape'')\<rparr>;
          doc = render_document st pr' jb;
          d' = meanwhile pv d
      in if \<not> accepted pv
         then \<lparr>ended = Cancelled, rendered = Some doc, stored = d'\<rparr>
         else \<lparr>ended = Printed, rendered = Some doc, stored = update_print_stats now d'\<rparr>)"

text \<open>
  The two \<^verbatim>\<open>try\<close> blocks: \<^verbatim>\<open>int(...)\<close> and the range test raise \<^verbatim>\<open>ValueError\<close>, which
  the handler turns into a warning and a return.
\<close>

definition parse_cpp :: "settings \<Rightarrow> int option" where
  "parse_cpp st =
     (case cards_per_page st of
        None \<Rightarrow> None
      | Some cpp \<Rightarrow> (if cpp < 1 \<or> cpp > 12 then None else Some cpp))"

definition parse_font_size :: "settings \<Rightarrow> int option" where
  "parse_font_size st =
     (case font_size st of
        None \<Rightarrow> None
      | Some fs \<Rightarrow> (if fs < 6 \<or> fs > 120 then None else Some fs))"

definition print_selected ::
  "settings \<Rightarrow> printer \<Rightarrow> preview \<Rightarrow> string \<Rightarrow> db \<Rightarrow> print_result" where
  "print_selected st pr pv now d =
     (let cards = print_collect d in
      if cards = [] then \<lparr>ended = NothingToPrint, rendered = None, stored = d\<rparr>
      else (case parse_cpp st of
        None \<Rightarrow> \<lparr>ended = InvalidSetting CardsPerPage, rendered = None, stored = d\<rparr>
      | Some cpp \<Rightarrow>
         (case parse_font_size st of
            None \<Rightarrow> \<lparr>ended = InvalidSetting FontSize, rendered = None, stored = d\<rparr>
          | Some fs \<Rightarrow>
              run_preview st pr pv now
                \<lparr>cards_to_print = cards, print_cpp = cpp, print_font_size = fs\<rparr> d)))"

section \<open>The table view and its filter\<close>

text \<open>
  The state of the window that the view depends on: the text of the search box,
  \<^verbatim>\<open>self.filter_selected\<close>, and \<^verbatim>\<open>self.filter_timer\<close>, a single-shot timer, as the time
  left until it fires (\<open>None\<close> when it is not running).
\<close>

record app =
  search_text :: string
  filter_selected :: bool
  filter_timer :: "nat option"

text \<open>
  Python's \<^verbatim>\<open>str.strip()\<close>: the characters for which \<^verbatim>\<open>str.isspace\<close> holds are removed
  at both ends.
\<close>

definition is_space :: "char \<Rightarrow> bool" where
  "is_space c = (of_char c \<in> {9, 10, 11, 12, 13, 28, 29, 30, 31, 32, 133, 160 :: nat})"

definition strip :: "string \<Rightarrow> string" where
  "strip s = rev (dropWhile is_space (rev (dropWhile is_space s)))"

text \<open>
  The \<^verbatim>\<open>LIKE\<close> operator of SQLite with its defaults: \<^verbatim>\<open>%\<close> in the pattern matches any
  run of characters, \<^verbatim>\<open>_\<close> matches any one character, and every other character matches
  itself, the ASCII letters without regard to case. No escape character is declared by
  the queries.
\<close>

definition like_lower :: "char \<Rightarrow> char" where
  "like_lower c = (if CHR ''A'' \<le> c \<and> c \<le> CHR ''Z'' then char_of (of_char c + (32 :: nat)) else c)"

fun like_match :: "string \<Rightarrow> string \<Rightarrow> bool" where
  "like_match [] s = (s = [])"
| "like_match (p # ps) [] = (p = CHR ''%'' \<and> like_match ps [])"
| "like_match (p # ps) (c # cs) =
     (if p = CHR ''%'' then like_match ps (c # cs) \<or> like_match (p # ps) cs
      else (p = CHR ''_'' \<or> like_lower p = like_lower c) \<and> like_match ps cs)"

text \<open>\<^verbatim>\<open>WHERE lesson LIKE ? OR front LIKE ? OR back LIKE ?\<close>, one pattern for the three.\<close>

definition like_any :: "string \<Rightarrow> card \<Rightarrow> bool" where
  "like_any pat c = (like_match pat (lesson c) \<or> like_match pat (front c) \<or> like_match pat (back c))"

text \<open>
  The query of \<^verbatim>\<open>load_data\<close>: the rows it fetches and shows. The pattern is
  \<^verbatim>\<open>f"%{filter_text}%"\<close> with the stripped text of the search box.
\<close>

definition load_data :: "app \<Rightarrow> db \<Rightarrow> card list" where
  "load_data a d =
     (let filter_text = strip (search_text a) in
      if filter_text \<noteq> [] then
        order_by_lesson_id (filter (like_any (CHR ''%'' # filter_text @ [CHR ''%''])) d)
      else if filter_selected a then order_by_lesson_id (filter selected d)
      else order_by_lesson_id d)"

text \<open>
  The reading of the search in the specification, for comparison with the query: a field
  contains the text as a substring, the ASCII letters compared without regard to case.
\<close>

definition contains_nocase :: "string \<Rightarrow> string \<Rightarrow> bool" where
  "contains_nocase t s = sublist (map like_lower t) (map like_lower s)"

definition contains_any :: "string \<Rightarrow> card \<Rightarrow> bool" where
  "contains_any t c =
     (contains_nocase t (lesson c) \<or> contains_nocase t (front c) \<or> contains_nocase t (back c))"

subsection \<open>The debounced search box\<close>

text \<open>
  An edit of the search box sets its text and emits \<^verbatim>\<open>textChanged\<close>, which is connected to
  \<^verbatim>\<open>debounced_filter\<close>: \<^verbatim>\<open>self.filter_timer.stop()\<close>, \<^verbatim>\<open>self.filter_timer.start(300)\<close>.
\<close>

definition debounced_filter :: "app \<Rightarrow> app" where
  "debounced_filter a = a\<lparr>filter_timer := Some 300\<rparr>"

definition text_changed :: "string \<Rightarrow> app \<Rightarrow> app" where
  "text_changed t a = debounced_filter (a\<lparr>search_text := t\<rparr>)"

text \<open>
  \<^verbatim>\<open>on_search_changed\<close>, the slot of the timer: a non-empty text clears
  \<^verbatim>\<open>filter_selected\<close>, the timer is stopped, and \<^verbatim>\<open>load_data\<close> runs in the resulting state.
\<close>

definition on_search_changed :: "app \<Rightarrow> app" where
  "on_search_changed a =
     (a\<lparr>filter_selected := (if search_text a \<noteq> [] then False else filter_selected a)\<rparr>)
       \<lparr>filter_timer := None\<rparr>"

text \<open>
  The event loop runs for \<open>dt\<close> time units with no input. A running single-shot timer
  whose time is up fires once; otherwise it keeps running. The second component lists
  the states in which \<^verbatim>\<open>load_data\<close> was called.
\<close>

definition elapse :: "nat \<Rightarrow> app \<Rightarrow> app \<times> app list" where
  "elapse dt a =
     (case filter_timer a of
        None \<Rightarrow> (a, [])
      | Some r \<Rightarrow>
         (if r \<le> dt then (on_search_changed a, [on_search_changed a])
          else (a\<lparr>filter_timer := Some (r - dt)\<rparr>, [])))"

text \<open>A run of edits, each followed by the time that passes before the next event.\<close>

fun typing :: "(string \<times> nat) list \<Rightarrow> app \<Rightarrow> app \<times> app list" where
  "typing [] a = (a, [])"
| "typing ((t, dt) # rest) a =
     (case elapse dt (text_changed t a) of
        (a1, loads1) \<Rightarrow> (case typing rest a1 of (a2, loads2) \<Rightarrow> (a2, loads1 @ loads2)))"

section \<open>Properties\<close>

subsection \<open>Helper lemmas on the table\<close>









lemma selected_ids_filter: "selected_ids d = set (map cid (filter selected d))"
  unfolding selected_ids_def by (induction d) auto

lemma filter_select_all_unprinted:
  "map cid (filter selected (select_all_unprinted d)) =
     map cid (filter (\<lambda>c. printed_count c = 0) d)"
  unfolding select_all_unprinted_def by (induction d) simp_all


text \<open>
  The two orders agree when the engine hands out the rows by ascending id: the sort by
  lesson keeps rows of equal lesson in the order in which it gets them.
\<close>

lemma insort_key_cong_on:
  assumes "\<And>y. y \<in> set ys \<Longrightarrow> (f x \<le> f y) = (g x \<le> g y)"
  shows "insort_key f x ys = insort_key g x ys"
  using assms by (induction ys) simp_all

lemma sort_key_lesson_id:
  assumes "sorted (map cid xs)"
  shows "sort_key lesson xs = sort_key (\<lambda>c. (lesson c, cid c)) xs"
  using assms
proof (induction xs)
  case Nil
  show ?case by simp
next
  case (Cons x xs)
  then have IH: "sort_key lesson xs = sort_key (\<lambda>c. (lesson c, cid c)) xs"
    and le: "\<And>y. y \<in> set xs \<Longrightarrow> cid x \<le> cid y"
    by auto
  have "insort_key lesson x (sort_key lesson xs) =
          insort_key (\<lambda>c. (lesson c, cid c)) x (sort_key lesson xs)"
  proof (rule insort_key_cong_on)
    fix y assume "y \<in> set (sort_key lesson xs)"
    then have "cid x \<le> cid y" using le by simp
    then show "(lesson x \<le> lesson y) = ((lesson x, cid x) \<le> (lesson y, cid y))"
      by (auto simp: less_eq_prod_def)
  qed
  then show ?case using IH by simp
qed

lemma print_rows_id_order:
  assumes "sorted (map cid d)"
  shows "print_rows d = order_by_lesson_id (filter selected d)"
proof -
  have "sorted (map cid (filter selected d))" using assms by (rule sorted_filter)
  then show ?thesis
    unfolding print_rows_def order_by_lesson_def order_by_lesson_id_def
    by (rule sort_key_lesson_id)
qed

lemma print_rows_sorted:
  "sorted (map lesson (print_rows d)) \<and> mset (print_rows d) = mset (filter selected d)"
  by (simp add: print_rows_def order_by_lesson_def)

subsection \<open>Helper lemmas on \<^verbatim>\<open>print_selected\<close>\<close>



subsection \<open>Helper lemmas on rendering\<close>

lemma pages_of_nonempty: "pages_of es \<noteq> []"
  by (induction es rule: pages_of.induct) (auto split: list.splits)

lemma pages_of_paints: "pages_of (map Paint ps) = [ps]"
  by (induction ps) auto

lemma pages_of_paints_newpage: "pages_of (map Paint ps @ NewPage # es) = ps # pages_of es"
  by (induction ps) auto

lemma front_side_takeWhile:
  "front_side L cards index is =
     concat (map (\<lambda>i. draw_front L i (cards ! nat (index + int i)))
       (takeWhile (\<lambda>i. index + int i < int (length cards)) is))"
  by (induction "is") auto

lemma back_side_takeWhile:
  "back_side L cards index is =
     concat (map (\<lambda>i. draw_back L i (cards ! nat (index + int i)))
       (takeWhile (\<lambda>i. index + int i < int (length cards)) is))"
  by (induction "is") auto

lemma takeWhile_less_upt: "takeWhile (\<lambda>i. i < m) [0..<n] = [0..<min n m]"
proof (induction n)
  case 0 then show ?case by simp
next
  case (Suc n)
  show ?case
  proof (cases "n < m")
    case True
    then have "takeWhile (\<lambda>i. i < m) ([0..<n] @ [n]) = [0..<n] @ takeWhile (\<lambda>i. i < m) [n]"
      by simp
    with True show ?thesis by (simp add: min_def)
  next
    case False
    then have "min n m = m" "min (Suc n) m = m" by auto
    moreover have "takeWhile (\<lambda>i. i < m) ([0..<n] @ [n]) = takeWhile (\<lambda>i. i < m) [0..<n]"
      using False Suc by (cases "m \<le> n") (auto simp: takeWhile_append min_def)
    ultimately show ?thesis using Suc by simp
  qed
qed

lemma chunk_count_less:
  assumes "1 \<le> cpp"
  shows "k < chunk_count cards cpp \<longleftrightarrow> int k * cpp < int (length cards)"
proof -
  define n where "n = nat cpp"
  have n: "0 < n" "cpp = int n" using assms by (auto simp: n_def)
  have "k < (length cards + n - 1) div n \<longleftrightarrow> Suc k \<le> (length cards + n - 1) div n" by auto
  also have "\<dots> \<longleftrightarrow> Suc k * n \<le> length cards + n - 1"
    using n(1) by (simp add: less_eq_div_iff_mult_less_eq)
  also have "\<dots> \<longleftrightarrow> k * n < length cards" using n(1) by auto
  also have "\<dots> \<longleftrightarrow> int k * cpp < int (length cards)"
    unfolding n(2) by (metis of_nat_less_iff of_nat_mult)
  finally show ?thesis by (simp add: chunk_count_def n_def)
qed

lemma chunk_count_ceiling:
  assumes "1 \<le> cpp"
  shows "int (chunk_count cards cpp) = \<lceil>(of_nat (length cards) :: rat) / of_int cpp\<rceil>"
proof -
  let ?C = "\<lceil>(of_nat (length cards) :: rat) / of_int cpp\<rceil>"
  have pos: "(0 :: rat) < of_int cpp" using assms by simp
  have B: "k < ?C \<longleftrightarrow> k * cpp < int (length cards)" for k :: int
  proof -
    have "k < ?C \<longleftrightarrow> (of_int k :: rat) < of_nat (length cards) / of_int cpp"
      by (rule less_ceiling_iff)
    also have "\<dots> \<longleftrightarrow> (of_int k :: rat) * of_int cpp < of_nat (length cards)"
      using pos by (simp add: pos_less_divide_eq)
    also have "\<dots> \<longleftrightarrow> (of_int (k * cpp) :: rat) < of_int (int (length cards))"
      by simp
    also have "\<dots> \<longleftrightarrow> k * cpp < int (length cards)"
      by (simp only: of_int_less_iff)
    finally show ?thesis .
  qed
  have A: "k < chunk_count cards cpp \<longleftrightarrow> int k * cpp < int (length cards)" for k
    by (rule chunk_count_less[OF assms])
  have "- 1 < ?C" using B[of "- 1"] assms by simp
  then have nonneg: "0 \<le> ?C" by linarith
  have "\<not> int (chunk_count cards cpp) < ?C"
    using A[of "chunk_count cards cpp"] B[of "int (chunk_count cards cpp)"] by simp
  moreover have "\<not> ?C < int (chunk_count cards cpp)"
  proof
    assume "?C < int (chunk_count cards cpp)"
    then have "nat ?C < chunk_count cards cpp" using nonneg by linarith
    then have "int (nat ?C) * cpp < int (length cards)" using A by simp
    then have "?C * cpp < int (length cards)" using nonneg by simp
    then show False using B[of ?C] by simp
  qed
  ultimately show ?thesis by linarith
qed

lemma render_loop_pages:
  assumes "1 \<le> cpp" "k < chunk_count cards cpp"
  shows "\<exists>body. render_loop L cards cpp (int k * cpp) out = Some (out @ body) \<and>
           pages_of body =
             concat (map (\<lambda>j. [front_page L cards cpp j, back_page L cards cpp j])
               [k..<chunk_count cards cpp])"
  using assms(2)
proof (induction "chunk_count cards cpp - k" arbitrary: k out)
  case 0
  then show ?case by simp
next
  case (Suc m)
  let ?n = "chunk_count cards cpp"
  let ?F = "front_page L cards cpp k" and ?B = "back_page L cards cpp k"
  have lt: "int k * cpp < int (length cards)"
    using Suc.prems chunk_count_less[OF assms(1)] by simp
  have nxt: "int k * cpp + cpp = int (Suc k) * cpp" by (simp add: algebra_simps)
  have more: "int (Suc k) * cpp < int (length cards) \<longleftrightarrow> Suc k < ?n"
    using chunk_count_less[OF assms(1), of "Suc k" cards] by simp
  have upt: "[k..<?n] = k # [Suc k..<?n]" using Suc.prems by (simp add: upt_conv_Cons)
  show ?case
  proof (cases "Suc k < ?n")
    case True
    let ?out = "out @ map Paint ?F @ [NewPage] @ map Paint ?B @ [NewPage]"
    have "m = ?n - Suc k" using Suc.hyps(2) by simp
    from Suc.hyps(1)[OF this True, of ?out]
    obtain body where b: "render_loop L cards cpp (int (Suc k) * cpp) ?out = Some (?out @ body)"
      "pages_of body = concat (map (\<lambda>j. [front_page L cards cpp j, back_page L cards cpp j])
               [Suc k..<?n])" by blast
    have "render_loop L cards cpp (int k * cpp) out =
            render_loop L cards cpp (int (Suc k) * cpp) ?out"
      using lt True more
      by (subst render_loop.simps) (simp add: nxt front_page_def back_page_def)
    then have "render_loop L cards cpp (int k * cpp) out =
                 Some (out @ (map Paint ?F @ NewPage # map Paint ?B @ NewPage # body))"
      using b(1) by simp
    moreover have "pages_of (map Paint ?F @ NewPage # map Paint ?B @ NewPage # body) =
                     ?F # ?B # pages_of body"
      by (simp add: pages_of_paints_newpage)
    ultimately show ?thesis using b(2) upt by auto
  next
    case False
    let ?out = "out @ map Paint ?F @ [NewPage] @ map Paint ?B"
    have stop: "\<not> int (Suc k) * cpp < int (length cards)" using False more by simp
    have "render_loop L cards cpp (int k * cpp) out =
            render_loop L cards cpp (int (Suc k) * cpp) ?out"
      using lt stop
      by (subst render_loop.simps) (simp add: nxt front_page_def back_page_def)
    also have "\<dots> = Some ?out"
      using stop by (subst render_loop.simps) simp
    finally have "render_loop L cards cpp (int k * cpp) out =
                 Some (out @ (map Paint ?F @ NewPage # map Paint ?B))" by simp
    moreover have "pages_of (map Paint ?F @ NewPage # map Paint ?B) = [?F, ?B]"
      by (simp add: pages_of_paints_newpage pages_of_paints)
    moreover have "[k..<?n] = [k]" using False Suc.prems upt by auto
    ultimately show ?thesis by auto
  qed
qed

lemma length_concat_pairs: "length (concat (map (\<lambda>j. [F j, B j]) js)) = 2 * length js"
  by (induction js) auto

lemma nth_concat_pairs:
  assumes "k < n"
  shows "concat (map (\<lambda>j. [F j, B j]) [0..<n]) ! (2 * k) = F k"
    and "concat (map (\<lambda>j. [F j, B j]) [0..<n]) ! (2 * k + 1) = B k"
  using assms
proof (induction n)
  case 0
  { case 1 then show ?case by simp }
  { case 2 then show ?case by simp }
next
  case (Suc n)
  { case 1
    then show ?case using Suc(1)
      by (cases "k < n") (auto simp: nth_append length_concat_pairs less_Suc_eq) }
  { case 2
    then show ?case using Suc(2)
      by (cases "k < n") (auto simp: nth_append length_concat_pairs less_Suc_eq) }
qed

lemma render_document_pages:
  assumes "begin_ok pr" "pen_width st = Some pw" "2 \<le> print_cpp jb" "cards_to_print jb \<noteq> []"
  shows "doc_pages st pr jb =
           concat (map (\<lambda>j. [front_page (page_layout st pr jb pw) (cards_to_print jb) (print_cpp jb) j,
                             back_page (page_layout st pr jb pw) (cards_to_print jb) (print_cpp jb) j])
             [0..<chunk_count (cards_to_print jb) (print_cpp jb)])"
proof -
  have c1: "1 \<le> print_cpp jb" using assms(3) by simp
  have "0 < chunk_count (cards_to_print jb) (print_cpp jb)"
    using chunk_count_less[OF c1, of 0 "cards_to_print jb"] assms(4) by simp
  from render_loop_pages[OF c1 this, of "page_layout st pr jb pw" "[]"]
  obtain body where
    "render_loop (page_layout st pr jb pw) (cards_to_print jb) (print_cpp jb) 0 [] = Some body"
    "pages_of body =
       concat (map (\<lambda>j. [front_page (page_layout st pr jb pw) (cards_to_print jb) (print_cpp jb) j,
                         back_page (page_layout st pr jb pw) (cards_to_print jb) (print_cpp jb) j])
         [0..<chunk_count (cards_to_print jb) (print_cpp jb)])"
    by auto
  moreover have "print_cpp jb div 2 \<noteq> 0" using assms(3) by simp
  ultimately show ?thesis
    using assms(1,2) by (simp add: doc_pages_def render_document_def)
qed

lemma chunk_positions:
  assumes "1 \<le> cpp"
  shows "takeWhile (\<lambda>i. int k * cpp + int i < int (length cards)) [0..<nat cpp] =
           [0..<min (nat cpp) (length cards - k * nat cpp)]"
proof -
  have "(\<lambda>i. int k * cpp + int i < int (length cards)) = (\<lambda>i. i < length cards - k * nat cpp)"
  proof
    fix i
    have "int k * cpp + int i = int (k * nat cpp + i)" using assms by simp
    then show "(int k * cpp + int i < int (length cards)) = (i < length cards - k * nat cpp)"
      by (simp only: of_nat_less_iff) auto
  qed
  then show ?thesis by (simp only: takeWhile_less_upt)
qed

lemma cell_of_draw_front:
  "map cell_of (draw_front L i rc) = replicate 3 \<lparr>pos = i, row = i div 2, col = i mod 2\<rparr>"
  by (cases rc) (simp add: draw_front_def Let_def numeral_3_eq_3)

lemma cell_of_draw_back:
  "map cell_of (draw_back L i rc) = [\<lparr>pos = i, row = i div 2, col = 1 - i mod 2\<rparr>]"
  by (cases rc) (simp add: draw_back_def Let_def)

lemma front_page_cells:
  assumes "1 \<le> cpp"
  shows "map cell_of (front_page L cards cpp k) =
           concat (map (\<lambda>i. replicate 3 \<lparr>pos = i, row = i div 2, col = i mod 2\<rparr>)
             [0..<min (nat cpp) (length cards - k * nat cpp)])"
  unfolding front_page_def front_side_takeWhile chunk_positions[OF assms]
  by (simp add: map_concat comp_def cell_of_draw_front)

lemma back_page_cells:
  assumes "1 \<le> cpp"
  shows "map cell_of (back_page L cards cpp k) =
           map (\<lambda>i. \<lparr>pos = i, row = i div 2, col = 1 - i mod 2\<rparr>)
             [0..<min (nat cpp) (length cards - k * nat cpp)]"
proof -
  have "concat (map (\<lambda>i. [f i]) xs) = map f xs" for f :: "nat \<Rightarrow> cell" and xs
    by (induction xs) auto
  then show ?thesis
    unfolding back_page_def back_side_takeWhile chunk_positions[OF assms]
    by (simp add: map_concat comp_def cell_of_draw_back)
qed

lemma front_page_eq:
  assumes "1 \<le> cpp"
  shows "front_page L cards cpp k =
           concat (map (\<lambda>i. draw_front L i (cards ! (k * nat cpp + i)))
             [0..<min (nat cpp) (length cards - k * nat cpp)])"
proof -
  have "nat (int k * cpp + int i) = k * nat cpp + i" for i
    using assms by (simp add: nat_add_distrib nat_mult_distrib)
  then show ?thesis
    unfolding front_page_def front_side_takeWhile chunk_positions[OF assms] by simp
qed

lemma back_page_eq:
  assumes "1 \<le> cpp"
  shows "back_page L cards cpp k =
           concat (map (\<lambda>i. draw_back L i (cards ! (k * nat cpp + i)))
             [0..<min (nat cpp) (length cards - k * nat cpp)])"
proof -
  have "nat (int k * cpp + int i) = k * nat cpp + i" for i
    using assms by (simp add: nat_add_distrib nat_mult_distrib)
  then show ?thesis
    unfolding back_page_def back_side_takeWhile chunk_positions[OF assms] by simp
qed

lemma doc_pages_length:
  assumes "begin_ok pr" "pen_width st = Some pw" "2 \<le> print_cpp jb" "cards_to_print jb \<noteq> []"
  shows "length (doc_pages st pr jb) = 2 * chunk_count (cards_to_print jb) (print_cpp jb)"
  by (simp add: render_document_pages[OF assms] length_concat_pairs)

lemma doc_pages_count_ceiling:
  assumes "begin_ok pr" "pen_width st = Some pw" "2 \<le> print_cpp jb" "cards_to_print jb \<noteq> []"
  shows "int (length (doc_pages st pr jb)) =
           2 * \<lceil>(of_nat (length (cards_to_print jb)) :: rat) / of_int (print_cpp jb)\<rceil>"
proof -
  have "1 \<le> print_cpp jb" using assms(3) by simp
  from chunk_count_ceiling[OF this, of "cards_to_print jb"] doc_pages_length[OF assms]
  show ?thesis by simp
qed

lemma nth_concat_map_fixed:
  assumes "\<And>x. length (f x) = n" and "i < length xs" and "j < n"
  shows "concat (map f xs) ! (n * i + j) = f (xs ! i) ! j"
  using assms(2)
proof (induction xs arbitrary: i)
  case Nil
  then show ?case by simp
next
  case (Cons x xs)
  show ?case
  proof (cases i)
    case 0
    then show ?thesis using assms(1)[of x] assms(3) by (simp add: nth_append)
  next
    case (Suc i')
    then have "i' < length xs" using Cons.prems by simp
    from Cons.IH[OF this] have IH: "concat (map f xs) ! (n * i' + j) = f (xs ! i') ! j" .
    have "n * i + j = length (f x) + (n * i' + j)" using Suc assms(1)[of x] by simp
    then have "(f x @ concat (map f xs)) ! (n * i + j) = concat (map f xs) ! (n * i' + j)"
      by (simp only: nth_append_length_plus)
    then show ?thesis using IH Suc by simp
  qed
qed

lemma length_concat_map_fixed:
  assumes "\<And>x. length (f x) = n"
  shows "length (concat (map f xs)) = n * length xs"
  by (induction xs) (simp_all add: assms)

lemma render_loop_diverges:
  assumes "render_loop L cards cpp index out = Some tr"
  shows "index < int (length cards) \<longrightarrow> 0 < cpp"
  using assms
proof (induction rule: render_loop.raw_induct[rotated 1, consumes 1])
  case (1 render_loop' L cards cpp index out tr)
  show ?case
  proof
    assume lt: "index < int (length cards)"
    show "0 < cpp"
    proof (rule ccontr)
      assume "\<not> 0 < cpp"
      then have "index + cpp < int (length cards)" using lt by simp
      moreover from 1(2) lt obtain out' where "render_loop' L cards cpp (index + cpp) out' = Some tr"
        by (auto split: if_splits)
      ultimately show False using 1(1) \<open>\<not> 0 < cpp\<close> by blast
    qed
  qed
qed

lemma doc_pages_cases:
  assumes "1 < length (doc_pages st pr jb)"
  obtains pw where "begin_ok pr" "pen_width st = Some pw" "2 \<le> print_cpp jb"
    "cards_to_print jb \<noteq> []"
proof -
  from assms obtain tr where r: "render_document st pr jb = Some (Inr tr)"
    and len: "1 < length (pages_of tr)"
    by (auto simp: doc_pages_def split: option.splits sum.splits)
  have b: "begin_ok pr"
  proof (rule ccontr)
    assume "\<not> begin_ok pr"
    then have "tr = []" using r by (simp add: render_document_def)
    then show False using len by simp
  qed
  from r b obtain pw where pw: "pen_width st = Some pw"
    by (auto simp: render_document_def split: option.splits)
  from r b pw have nz: "print_cpp jb div 2 \<noteq> 0"
    and loop: "render_loop (page_layout st pr jb pw) (cards_to_print jb) (print_cpp jb) 0 [] = Some tr"
    by (auto simp: render_document_def split: if_splits)
  have ne: "cards_to_print jb \<noteq> []"
  proof
    assume "cards_to_print jb = []"
    then have "tr = []" using loop by (subst (asm) render_loop.simps) simp
    then show False using len by simp
  qed
  then have "0 < print_cpp jb" using render_loop_diverges[OF loop] by simp
  then have "2 \<le> print_cpp jb" using nz by (cases "print_cpp jb = 1") auto
  then show ?thesis using that b pw ne by blast
qed

section \<open>The claims on rendering\<close>

text \<open>
  Claim C4. Every call painted on a back page of \<^verbatim>\<open>render_document\<close>, the call number
  \<open>i\<close> of the page \<open>2 * k + 1\<close>, draws the back text of the card at position \<open>i\<close> of the
  chunk \<open>k\<close> in the cell of column \<open>1 - i mod 2\<close> and row \<open>i div 2\<close>: the rectangle
  handed to \<^verbatim>\<open>drawText\<close> starts at \<open>x = (1 - i mod 2) * card_w + 10\<close> and
  \<open>y = (i div 2) * card_h + 20\<close>. The front page of the chunk, the page \<open>2 * k\<close>, draws
  the border and the front text of the same card in the cell of column \<open>i mod 2\<close> of the
  same row, and holds three calls for each call of the back page.
\<close>

theorem back_text_is_painted_in_the_mirrored_cell:
  assumes "2 * k + 1 < length (doc_pages st pr jb)"
    and "i < length (doc_pages st pr jb ! (2 * k + 1))"
  shows "\<exists>pw lesson_text front_text back_text.
           pen_width st = Some pw \<and>
           k * nat (print_cpp jb) + i < length (cards_to_print jb) \<and>
           cards_to_print jb ! (k * nat (print_cpp jb) + i) = (lesson_text, front_text, back_text) \<and>
           doc_pages st pr jb ! (2 * k + 1) ! i =
             DrawText \<lparr>pos = i, row = i div 2, col = 1 - i mod 2\<rparr>
               (of_nat (1 - i mod 2) * card_w (page_layout st pr jb pw) + 10)
               (of_nat (i div 2) * card_h (page_layout st pr jb pw) + 20)
               (card_w (page_layout st pr jb pw) - 20)
               (card_h (page_layout st pr jb pw) - 40)
               (print_font_size jb) back_text \<and>
           doc_pages st pr jb ! (2 * k) ! (3 * i) =
             DrawRect \<lparr>pos = i, row = i div 2, col = i mod 2\<rparr>
               (of_nat (i mod 2) * card_w (page_layout st pr jb pw))
               (of_nat (i div 2) * card_h (page_layout st pr jb pw))
               (card_w (page_layout st pr jb pw))
               (card_h (page_layout st pr jb pw))
               (pen_color st) pw \<and>
           doc_pages st pr jb ! (2 * k) ! (3 * i + 2) =
             DrawText \<lparr>pos = i, row = i div 2, col = i mod 2\<rparr>
               (of_nat (i mod 2) * card_w (page_layout st pr jb pw) + 10)
               (of_nat (i div 2) * card_h (page_layout st pr jb pw) + 20)
               (card_w (page_layout st pr jb pw) - 20)
               (card_h (page_layout st pr jb pw) - 40)
               (print_font_size jb) front_text \<and>
           length (doc_pages st pr jb ! (2 * k)) =
             3 * length (doc_pages st pr jb ! (2 * k + 1))"
proof -
  from assms(1) have "1 < length (doc_pages st pr jb)" by simp
  then obtain pw where h: "begin_ok pr" "pen_width st = Some pw" "2 \<le> print_cpp jb"
    "cards_to_print jb \<noteq> []" by (rule doc_pages_cases)
  let ?L = "page_layout st pr jb pw" and ?cs = "cards_to_print jb" and ?n = "print_cpp jb"
  let ?m = "min (nat ?n) (length ?cs - k * nat ?n)"
  let ?f = "\<lambda>i. draw_front ?L i (?cs ! (k * nat ?n + i))"
  let ?b = "\<lambda>i. draw_back ?L i (?cs ! (k * nat ?n + i))"
  have c1: "1 \<le> ?n" using h(3) by simp
  have k: "k < chunk_count ?cs ?n"
    using assms(1) by (simp add: doc_pages_length[OF h])
  have F0: "doc_pages st pr jb ! (2 * k) = front_page ?L ?cs ?n k"
    and B0: "doc_pages st pr jb ! (2 * k + 1) = back_page ?L ?cs ?n k"
    unfolding render_document_pages[OF h] using nth_concat_pairs[OF k] by blast+
  have F: "doc_pages st pr jb ! (2 * k) = concat (map ?f [0..<?m])"
    unfolding F0 by (rule front_page_eq[OF c1])
  have B: "doc_pages st pr jb ! (2 * k + 1) = concat (map ?b [0..<?m])"
    unfolding B0 by (rule back_page_eq[OF c1])
  have lf: "length (?f x) = 3" for x
    by (cases "?cs ! (k * nat ?n + x)") (simp add: draw_front_def Let_def)
  have lb: "length (?b x) = 1" for x
    by (cases "?cs ! (k * nat ?n + x)") (simp add: draw_back_def Let_def)
  have lenB: "length (doc_pages st pr jb ! (2 * k + 1)) = ?m"
    unfolding B using length_concat_map_fixed[of ?b 1 "[0..<?m]", OF lb] by simp
  have lenF: "length (doc_pages st pr jb ! (2 * k)) = 3 * ?m"
    unfolding F using length_concat_map_fixed[of ?f 3 "[0..<?m]", OF lf] by simp
  have i: "i < ?m" using assms(2) lenB by simp
  then have "i < length ?cs - k * nat ?n" by simp
  then have idx: "k * nat ?n + i < length ?cs" by linarith
  obtain lesson_text front_text back_text
    where c: "?cs ! (k * nat ?n + i) = (lesson_text, front_text, back_text)"
    by (cases "?cs ! (k * nat ?n + i)") auto
  have il: "i < length [0..<?m]" using i by simp
  have "doc_pages st pr jb ! (2 * k + 1) ! i = ?b i ! 0"
    unfolding B using nth_concat_map_fixed[of ?b 1 i "[0..<?m]" 0, OF lb il] i by simp
  then have b: "doc_pages st pr jb ! (2 * k + 1) ! i =
             DrawText \<lparr>pos = i, row = i div 2, col = 1 - i mod 2\<rparr>
               (of_nat (1 - i mod 2) * card_w ?L + 10) (of_nat (i div 2) * card_h ?L + 20)
               (card_w ?L - 20) (card_h ?L - 40) (print_font_size jb) back_text"
    by (simp add: c draw_back_def Let_def page_layout_def)
  have "doc_pages st pr jb ! (2 * k) ! (3 * i + 0) = ?f i ! 0"
    unfolding F using nth_concat_map_fixed[of ?f 3 i "[0..<?m]" 0, OF lf il] i by simp
  then have f0: "doc_pages st pr jb ! (2 * k) ! (3 * i) =
             DrawRect \<lparr>pos = i, row = i div 2, col = i mod 2\<rparr>
               (of_nat (i mod 2) * card_w ?L) (of_nat (i div 2) * card_h ?L)
               (card_w ?L) (card_h ?L) (pen_color st) pw"
    by (simp add: c draw_front_def Let_def page_layout_def)
  have "doc_pages st pr jb ! (2 * k) ! (3 * i + 2) = ?f i ! 2"
    unfolding F using nth_concat_map_fixed[of ?f 3 i "[0..<?m]" 2, OF lf il] i by simp
  then have f2: "doc_pages st pr jb ! (2 * k) ! (3 * i + 2) =
             DrawText \<lparr>pos = i, row = i div 2, col = i mod 2\<rparr>
               (of_nat (i mod 2) * card_w ?L + 10) (of_nat (i div 2) * card_h ?L + 20)
               (card_w ?L - 20) (card_h ?L - 40) (print_font_size jb) front_text"
    by (simp add: c draw_front_def Let_def page_layout_def)
  have len: "length (doc_pages st pr jb ! (2 * k)) =
               3 * length (doc_pages st pr jb ! (2 * k + 1))"
    using lenF lenB by simp
  show ?thesis
    using h(2) idx c b f0 f2 len by blast
qed

theorem back_text_is_painted_in_the_mirrored_cell_witness:
  "2 * 1 + 1 < length (doc_pages
       \<lparr>cards_per_page = Some 4, font_size = Some 60, pen_width = Some 2,
        pen_color = ''#000000'', orientation = ''Portrait''\<rparr>
       \<lparr>resolution = 1200, landscape = False, begin_ok = True\<rparr>
       \<lparr>cards_to_print =
          [(''L1'', ''f0'', ''b0''), (''L1'', ''f1'', ''b1''), (''L1'', ''f2'', ''b2''),
           (''L1'', ''f3'', ''b3''), (''L2'', ''f4'', ''b4''), (''L2'', ''f5'', ''b5''),
           (''L2'', ''f6'', ''b6'')],
        print_cpp = 4, print_font_size = 60\<rparr>) \<and>
   2 < length (doc_pages
       \<lparr>cards_per_page = Some 4, font_size = Some 60, pen_width = Some 2,
        pen_color = ''#000000'', orientation = ''Portrait''\<rparr>
       \<lparr>resolution = 1200, landscape = False, begin_ok = True\<rparr>
       \<lparr>cards_to_print =
          [(''L1'', ''f0'', ''b0''), (''L1'', ''f1'', ''b1''), (''L1'', ''f2'', ''b2''),
           (''L1'', ''f3'', ''b3''), (''L2'', ''f4'', ''b4''), (''L2'', ''f5'', ''b5''),
           (''L2'', ''f6'', ''b6'')],
        print_cpp = 4, print_font_size = 60\<rparr> ! (2 * 1 + 1)) \<and>
   doc_pages
       \<lparr>cards_per_page = Some 4, font_size = Some 60, pen_width = Some 2,
        pen_color = ''#000000'', orientation = ''Portrait''\<rparr>
       \<lparr>resolution = 1200, landscape = False, begin_ok = True\<rparr>
       \<lparr>cards_to_print =
          [(''L1'', ''f0'', ''b0''), (''L1'', ''f1'', ''b1''), (''L1'', ''f2'', ''b2''),
           (''L1'', ''f3'', ''b3''), (''L2'', ''f4'', ''b4''), (''L2'', ''f5'', ''b5''),
           (''L2'', ''f6'', ''b6'')],
        print_cpp = 4, print_font_size = 60\<rparr> ! (2 * 1 + 1) ! 2 =
     DrawText \<lparr>pos = 2, row = 1, col = 1\<rparr> 5110 6620 5080 6560 60 ''b6'' \<and>
   doc_pages
       \<lparr>cards_per_page = Some 4, font_size = Some 60, pen_width = Some 2,
        pen_color = ''#000000'', orientation = ''Portrait''\<rparr>
       \<lparr>resolution = 1200, landscape = False, begin_ok = True\<rparr>
       \<lparr>cards_to_print =
          [(''L1'', ''f0'', ''b0''), (''L1'', ''f1'', ''b1''), (''L1'', ''f2'', ''b2''),
           (''L1'', ''f3'', ''b3''), (''L2'', ''f4'', ''b4''), (''L2'', ''f5'', ''b5''),
           (''L2'', ''f6'', ''b6'')],
        print_cpp = 4, print_font_size = 60\<rparr> ! (2 * 1) ! (3 * 2) =
     DrawRect \<lparr>pos = 2, row = 1, col = 0\<rparr> 0 6600 5100 6600 ''#000000'' 2"
proof -
  let ?st = "\<lparr>cards_per_page = Some 4, font_size = Some 60, pen_width = Some 2,
        pen_color = ''#000000'', orientation = ''Portrait''\<rparr>"
  let ?pr = "\<lparr>resolution = 1200, landscape = False, begin_ok = True\<rparr>"
  let ?jb = "\<lparr>cards_to_print =
          [(''L1'', ''f0'', ''b0''), (''L1'', ''f1'', ''b1''), (''L1'', ''f2'', ''b2''),
           (''L1'', ''f3'', ''b3''), (''L2'', ''f4'', ''b4''), (''L2'', ''f5'', ''b5''),
           (''L2'', ''f6'', ''b6'')],
        print_cpp = 4, print_font_size = 60\<rparr>"
  have "length (doc_pages ?st ?pr ?jb) = 4 \<and> length (doc_pages ?st ?pr ?jb ! 3) = 3"
    by (simp add: doc_pages_def render_document_def page_layout_def py_trunc_def
        render_loop.simps draw_front_def draw_back_def Let_def upt_rec)
  then have h1: "2 * 1 + 1 < length (doc_pages ?st ?pr ?jb)"
    and h2: "2 < length (doc_pages ?st ?pr ?jb ! (2 * 1 + 1))"
    by simp_all
  from back_text_is_painted_in_the_mirrored_cell[OF h1 h2]
  obtain pw lesson_text front_text back_text where
    pw: "pen_width ?st = Some pw"
    and c: "cards_to_print ?jb ! (1 * nat (print_cpp ?jb) + 2) = (lesson_text, front_text, back_text)"
    and b: "doc_pages ?st ?pr ?jb ! (2 * 1 + 1) ! 2 =
             DrawText \<lparr>pos = 2, row = 2 div 2, col = 1 - 2 mod 2\<rparr>
               (of_nat (1 - 2 mod 2) * card_w (page_layout ?st ?pr ?jb pw) + 10)
               (of_nat (2 div 2) * card_h (page_layout ?st ?pr ?jb pw) + 20)
               (card_w (page_layout ?st ?pr ?jb pw) - 20)
               (card_h (page_layout ?st ?pr ?jb pw) - 40)
               (print_font_size ?jb) back_text"
    and f: "doc_pages ?st ?pr ?jb ! (2 * 1) ! (3 * 2) =
             DrawRect \<lparr>pos = 2, row = 2 div 2, col = 2 mod 2\<rparr>
               (of_nat (2 mod 2) * card_w (page_layout ?st ?pr ?jb pw))
               (of_nat (2 div 2) * card_h (page_layout ?st ?pr ?jb pw))
               (card_w (page_layout ?st ?pr ?jb pw))
               (card_h (page_layout ?st ?pr ?jb pw))
               (pen_color ?st) pw"
    by blast
  from pw have pw2: "pw = 2" by simp
  from c have bt: "back_text = ''b6''" by simp
  have L: "card_w (page_layout ?st ?pr ?jb 2) = 5100" "card_h (page_layout ?st ?pr ?jb 2) = 6600"
    by (simp_all add: page_layout_def py_trunc_def Let_def)
  from b f h1 h2 show ?thesis unfolding pw2 bt L by simp
qed

text \<open>
  Claim C7. When the chunk number \<open>k\<close> holds \<open>M\<close> cards and \<open>M\<close> is less than the
  number of cards per sheet, its front page consists of the painter calls for the
  positions \<open>0\<close> to \<open>M - 1\<close> and its back page of the back texts for the same positions;
  no call on either page belongs to a position from \<open>M\<close> on, so the remaining cells get
  no border, no lesson label and no text.
\<close>

theorem short_chunk_paints_only_its_cards:
  assumes "begin_ok pr" and "pen_width st = Some pw"
    and "k * nat (print_cpp jb) < length (cards_to_print jb)"
    and "length (cards_to_print jb) - k * nat (print_cpp jb) < nat (print_cpp jb)"
  shows "doc_pages st pr jb ! (2 * k) =
           concat (map (\<lambda>i. draw_front (page_layout st pr jb pw) i
                              (cards_to_print jb ! (k * nat (print_cpp jb) + i)))
             [0..<length (cards_to_print jb) - k * nat (print_cpp jb)]) \<and>
         doc_pages st pr jb ! (2 * k + 1) =
           concat (map (\<lambda>i. draw_back (page_layout st pr jb pw) i
                              (cards_to_print jb ! (k * nat (print_cpp jb) + i)))
             [0..<length (cards_to_print jb) - k * nat (print_cpp jb)]) \<and>
         (\<forall>p \<in> set (doc_pages st pr jb ! (2 * k) @ doc_pages st pr jb ! (2 * k + 1)).
            pos (cell_of p) < length (cards_to_print jb) - k * nat (print_cpp jb))"
proof -
  let ?L = "page_layout st pr jb pw" and ?cs = "cards_to_print jb" and ?n = "print_cpp jb"
  let ?M = "length ?cs - k * nat ?n"
  have c2: "2 \<le> ?n" using assms(3,4) by linarith
  then have c1: "1 \<le> ?n" by simp
  have ne: "?cs \<noteq> []" using assms(3) by auto
  note h = assms(1,2) c2 ne
  have "int k * ?n < int (length ?cs)"
    using assms(3) c1 by (metis nat_0_le of_nat_less_iff of_nat_mult order_trans zero_le_one)
  then have k: "k < chunk_count ?cs ?n" using chunk_count_less[OF c1] by simp
  have m: "min (nat ?n) ?M = ?M" using assms(4) by simp
  have F: "doc_pages st pr jb ! (2 * k) = front_page ?L ?cs ?n k"
    and B: "doc_pages st pr jb ! (2 * k + 1) = back_page ?L ?cs ?n k"
    unfolding render_document_pages[OF h] using nth_concat_pairs[OF k] by blast+
  have "\<forall>p \<in> set (front_page ?L ?cs ?n k). pos (cell_of p) < ?M"
  proof
    fix p assume "p \<in> set (front_page ?L ?cs ?n k)"
    then have "cell_of p \<in> set (map cell_of (front_page ?L ?cs ?n k))" by simp
    then show "pos (cell_of p) < ?M" unfolding front_page_cells[OF c1] m by auto
  qed
  moreover have "\<forall>p \<in> set (back_page ?L ?cs ?n k). pos (cell_of p) < ?M"
  proof
    fix p assume "p \<in> set (back_page ?L ?cs ?n k)"
    then have "cell_of p \<in> set (map cell_of (back_page ?L ?cs ?n k))" by simp
    then show "pos (cell_of p) < ?M" unfolding back_page_cells[OF c1] m by auto
  qed
  ultimately show ?thesis
    unfolding F B using front_page_eq[OF c1, of ?L ?cs k] back_page_eq[OF c1, of ?L ?cs k] m
    by auto
qed

theorem short_chunk_paints_only_its_cards_witness:
  "begin_ok \<lparr>resolution = 1200, landscape = False, begin_ok = True\<rparr> \<and>
   pen_width \<lparr>cards_per_page = Some 2, font_size = Some 60, pen_width = Some 2,
        pen_color = ''#000000'', orientation = ''Portrait''\<rparr> = Some 2 \<and>
   1 * nat 2 < length [(''L1'', ''a'', ''b''), (''L1'', ''c'', ''d''), (''L2'', ''e'', ''f'')] \<and>
   length [(''L1'', ''a'', ''b''), (''L1'', ''c'', ''d''), (''L2'', ''e'', ''f'')] - 1 * nat 2 < nat 2 \<and>
   map (pos \<circ> cell_of) (doc_pages
       \<lparr>cards_per_page = Some 2, font_size = Some 60, pen_width = Some 2,
        pen_color = ''#000000'', orientation = ''Portrait''\<rparr>
       \<lparr>resolution = 1200, landscape = False, begin_ok = True\<rparr>
       \<lparr>cards_to_print = [(''L1'', ''a'', ''b''), (''L1'', ''c'', ''d''), (''L2'', ''e'', ''f'')],
        print_cpp = 2, print_font_size = 60\<rparr> ! (2 * 1)) = [0, 0, 0] \<and>
   map (pos \<circ> cell_of) (doc_pages
       \<lparr>cards_per_page = Some 2, font_size = Some 60, pen_width = Some 2,
        pen_color = ''#000000'', orientation = ''Portrait''\<rparr>
       \<lparr>resolution = 1200, landscape = False, begin_ok = True\<rparr>
       \<lparr>cards_to_print = [(''L1'', ''a'', ''b''), (''L1'', ''c'', ''d''), (''L2'', ''e'', ''f'')],
        print_cpp = 2, print_font_size = 60\<rparr> ! (2 * 1 + 1)) = [0]"
  using short_chunk_paints_only_its_cards
    [of "\<lparr>resolution = 1200, landscape = False, begin_ok = True\<rparr>"
        "\<lparr>cards_per_page = Some 2, font_size = Some 60, pen_width = Some 2,
          pen_color = ''#000000'', orientation = ''Portrait''\<rparr>"
        2 1
        "\<lparr>cards_to_print = [(''L1'', ''a'', ''b''), (''L1'', ''c'', ''d''), (''L2'', ''e'', ''f'')],
          print_cpp = 2, print_font_size = 60\<rparr>"]
  by (simp add: draw_front_def draw_back_def Let_def)

section \<open>The claims on the store\<close>

text \<open>
  Claim C5. After \<^verbatim>\<open>select_all_unprinted\<close> the set of selected ids is the set of the ids
  of the rows whose \<^verbatim>\<open>printed_count\<close> is 0, whatever was selected before: row by row the
  flag is \<open>printed_count = 0\<close>, and no other column changes.
\<close>

theorem select_unprinted_selects_exactly_unprinted:
  "selected_ids (select_all_unprinted d) = cid ` {c \<in> set d. printed_count c = 0} \<and>
   map selected (select_all_unprinted d) = map (\<lambda>c. printed_count c = 0) d \<and>
   map (\<lambda>c. c\<lparr>selected := False\<rparr>) (select_all_unprinted d) = map (\<lambda>c. c\<lparr>selected := False\<rparr>) d"
proof -
  have sel: "map selected (select_all_unprinted d) = map (\<lambda>c. printed_count c = 0) d"
    by (simp add: select_all_unprinted_def)
  have rest: "map (\<lambda>c. c\<lparr>selected := False\<rparr>) (select_all_unprinted d) =
              map (\<lambda>c. c\<lparr>selected := False\<rparr>) d"
    by (simp add: select_all_unprinted_def)
  have "selected_ids (select_all_unprinted d) =
          set (map cid (filter (\<lambda>c. printed_count c = 0) d))"
    by (simp only: selected_ids_filter filter_select_all_unprinted)
  also have "\<dots> = cid ` {c \<in> set d. printed_count c = 0}"
    by simp
  finally show ?thesis using sel rest by simp
qed

theorem select_unprinted_selects_exactly_unprinted_witness:
  "selected_ids (select_all_unprinted
     [\<lparr>cid = 1, lesson = ''L1'', front = ''Hola'', back = ''Hello'', selected = True,
       copies = 1, printed_count = 2, printed_real = False, last_printed = Some ''2026-01-01 10:00:00''\<rparr>,
      \<lparr>cid = 2, lesson = ''L1'', front = ''Adios'', back = ''Bye'', selected = False,
       copies = 1, printed_count = 0, printed_real = False, last_printed = None\<rparr>]) = {2}"
proof -
  let ?d = "[\<lparr>cid = 1, lesson = ''L1'', front = ''Hola'', back = ''Hello'', selected = True,
       copies = 1, printed_count = 2, printed_real = False, last_printed = Some ''2026-01-01 10:00:00''\<rparr>,
      \<lparr>cid = 2, lesson = ''L1'', front = ''Adios'', back = ''Bye'', selected = False,
       copies = 1, printed_count = 0, printed_real = False, last_printed = None\<rparr>]"
  have "cid ` {c \<in> set ?d. printed_count c = 0} =
          set (map cid (filter (\<lambda>c. printed_count c = 0) ?d))"
    by (simp only: set_map set_filter)
  also have "\<dots> = {2}" by simp
  finally show ?thesis
    using select_unprinted_selects_exactly_unprinted[of ?d] by (simp only:)
qed

text \<open>
  Claim C10. When the preview dialog is not accepted, \<^verbatim>\<open>print_selected\<close> never ends
  with the statistics written: the database file is the one it found, or, when it got as
  far as the dialog, the file as it is when the dialog closes; with no other writer
  meanwhile it is exactly the file from before the request.
\<close>

theorem cancelled_print_leaves_store:
  assumes "\<not> accepted pv"
  shows "ended (print_selected st pr pv now d) \<noteq> Printed \<and>
         stored (print_selected st pr pv now d) =
           (if ended (print_selected st pr pv now d) = Cancelled then meanwhile pv d else d) \<and>
         (meanwhile pv d = d \<longrightarrow> stored (print_selected st pr pv now d) = d)"
proof (cases "print_collect d = []")
  case True
  then show ?thesis by (simp add: print_selected_def)
next
  case ne: False
  show ?thesis
  proof (cases "parse_cpp st")
    case None
    then show ?thesis using ne by (simp add: print_selected_def)
  next
    case cpp: (Some cpp)
    show ?thesis
    proof (cases "parse_font_size st")
      case None
      then show ?thesis using ne cpp by (simp add: print_selected_def)
    next
      case (Some fs)
      then show ?thesis using ne cpp assms by (simp add: print_selected_def run_preview_def Let_def)
    qed
  qed
qed

theorem cancelled_print_leaves_store_witness:
  "\<not> accepted \<lparr>accepted = False, meanwhile = id\<rparr> \<and>
   stored (print_selected
     \<lparr>cards_per_page = Some 6, font_size = Some 60, pen_width = Some 2,
      pen_color = ''#000000'', orientation = ''Portrait''\<rparr>
     \<lparr>resolution = 1200, landscape = False, begin_ok = True\<rparr>
     \<lparr>accepted = False, meanwhile = id\<rparr>
     ''2026-01-01 10:00:00''
     [\<lparr>cid = 1, lesson = ''L1'', front = ''Hola'', back = ''Hello'', selected = True,
       copies = 1, printed_count = 0, printed_real = False, last_printed = None\<rparr>])
   = [\<lparr>cid = 1, lesson = ''L1'', front = ''Hola'', back = ''Hello'', selected = True,
       copies = 1, printed_count = 0, printed_real = False, last_printed = None\<rparr>]"
  using cancelled_print_leaves_store
    [of "\<lparr>accepted = False, meanwhile = id\<rparr>"
        "\<lparr>cards_per_page = Some 6, font_size = Some 60, pen_width = Some 2,
          pen_color = ''#000000'', orientation = ''Portrait''\<rparr>"
        "\<lparr>resolution = 1200, landscape = False, begin_ok = True\<rparr>"
        "''2026-01-01 10:00:00''"
        "[\<lparr>cid = 1, lesson = ''L1'', front = ''Hola'', back = ''Hello'', selected = True,
           copies = 1, printed_count = 0, printed_real = False, last_printed = None\<rparr>]"]
  by simp




section \<open>The claims on the print path\<close>

text \<open>
  Claim C2 fails at one card per sheet. The value 1 passes the range test of
  \<^verbatim>\<open>print_selected\<close> (between 1 and 12), and \<^verbatim>\<open>render_document\<close> then divides by
  \<^verbatim>\<open>rows = 1 // 2 = 0\<close>: it raises \<^verbatim>\<open>ZeroDivisionError\<close> and no page is printed, where
  the claim asks for one front and back pair. From two cards per sheet on, the number of
  pages is twice the number of cards over the cards per sheet, rounded up
  (\<open>doc_pages_count_ceiling\<close>).
\<close>

theorem one_card_per_sheet_raises:
  "print_selected
     \<lparr>cards_per_page = Some 1, font_size = Some 60, pen_width = Some 2,
      pen_color = ''#000000'', orientation = ''Portrait''\<rparr>
     \<lparr>resolution = 1200, landscape = False, begin_ok = True\<rparr>
     \<lparr>accepted = False, meanwhile = id\<rparr>
     ''2026-01-01 10:00:00''
     [\<lparr>cid = 1, lesson = ''L1'', front = ''Hola'', back = ''Hello'', selected = True,
       copies = 1, printed_count = 0, printed_real = False, last_printed = None\<rparr>]
     = \<lparr>ended = Cancelled,
        rendered = Some (Some (Inl ZeroDivisionError)),
        stored =
          [\<lparr>cid = 1, lesson = ''L1'', front = ''Hola'', back = ''Hello'', selected = True,
            copies = 1, printed_count = 0, printed_real = False, last_printed = None\<rparr>]\<rparr> \<and>
   doc_pages
     \<lparr>cards_per_page = Some 1, font_size = Some 60, pen_width = Some 2,
      pen_color = ''#000000'', orientation = ''Portrait''\<rparr>
     \<lparr>resolution = 1200, landscape = False, begin_ok = True\<rparr>
     \<lparr>cards_to_print = [(''L1'', ''Hola'', ''Hello'')], print_cpp = 1, print_font_size = 60\<rparr>
     = []"
  by (simp add: print_selected_def run_preview_def print_collect_def print_rows_def
      order_by_lesson_def expand_def parse_cpp_def parse_font_size_def
      render_document_def doc_pages_def)

text \<open>
  Claim C8 fails for the pen width. \<^verbatim>\<open>print_selected\<close> tests the cards per page and the
  font size, but nothing on the print path tests the pen width: with a pen width of 50
  the print goes through, the border is drawn with that width, and the statistics are
  written.
\<close>

theorem pen_width_not_validated:
  "print_selected
     \<lparr>cards_per_page = Some 2, font_size = Some 60, pen_width = Some 50,
      pen_color = ''#000000'', orientation = ''Portrait''\<rparr>
     \<lparr>resolution = 1200, landscape = False, begin_ok = True\<rparr>
     \<lparr>accepted = True, meanwhile = id\<rparr>
     ''2026-01-01 10:00:00''
     [\<lparr>cid = 1, lesson = ''L1'', front = ''Hola'', back = ''Hello'', selected = True,
       copies = 1, printed_count = 0, printed_real = False, last_printed = None\<rparr>]
     = \<lparr>ended = Printed,
        rendered = Some (Some (Inr
          [Paint (DrawRect \<lparr>pos = 0, row = 0, col = 0\<rparr> 0 0 5100 13200 ''#000000'' 50),
           Paint (DrawLesson \<lparr>pos = 0, row = 0, col = 0\<rparr> 10 300 4700 30 ''L1''),
           Paint (DrawText \<lparr>pos = 0, row = 0, col = 0\<rparr> 10 20 5080 13160 60 ''Hola''),
           NewPage,
           Paint (DrawText \<lparr>pos = 0, row = 0, col = 1\<rparr> 5110 20 5080 13160 60 ''Hello'')])),
        stored =
          [\<lparr>cid = 1, lesson = ''L1'', front = ''Hola'', back = ''Hello'', selected = True,
            copies = 1, printed_count = 1, printed_real = False, last_printed = Some ''2026-01-01 10:00:00''\<rparr>]\<rparr>"
  by (simp add: print_selected_def run_preview_def print_collect_def print_rows_def
      order_by_lesson_def expand_def parse_cpp_def parse_font_size_def
      render_document_def page_layout_def py_trunc_def render_loop.simps
      draw_front_def draw_back_def Let_def upt_rec update_print_stats_def
      mark_printed_def add_copies_def int64_def)

text \<open>
  The two settings that \<^verbatim>\<open>print_selected\<close> does test: a value out of range, or one that
  \<^verbatim>\<open>int\<close> rejects, ends the print with a warning before the preview exists, so nothing is
  rendered and nothing is written.
\<close>

lemma invalid_setting_rejected:
  assumes "print_collect d \<noteq> []"
    and "parse_cpp st = None \<or> parse_font_size st = None"
  shows "(\<exists>n. ended (print_selected st pr pv now d) = InvalidSetting n) \<and>
         rendered (print_selected st pr pv now d) = None \<and>
         stored (print_selected st pr pv now d) = d"
proof (cases "parse_cpp st")
  case None
  then show ?thesis using assms(1) by (simp add: print_selected_def)
next
  case (Some cpp)
  then have "parse_font_size st = None" using assms(2) by simp
  then show ?thesis using assms(1) Some by (simp add: print_selected_def)
qed

lemma parse_cpp_None_iff:
  "parse_cpp st = None \<longleftrightarrow>
     (case cards_per_page st of None \<Rightarrow> True | Some n \<Rightarrow> n < 1 \<or> 12 < n)"
  by (simp add: parse_cpp_def split: option.splits)

lemma parse_font_size_None_iff:
  "parse_font_size st = None \<longleftrightarrow>
     (case font_size st of None \<Rightarrow> True | Some n \<Rightarrow> n < 6 \<or> 120 < n)"
  by (simp add: parse_font_size_def split: option.splits)

text \<open>
  Claim C3. SQLite hands out the rows of the table by ascending id. The rows that
  \<^verbatim>\<open>print_selected\<close> reads are then the selected rows in the order of the table view:
  by lesson and, among equal lessons, by id, each selected row once; and the cards to
  print are these rows in this order, each repeated \<^verbatim>\<open>copies\<close> times in a row.
\<close>

theorem print_cards_in_catalog_order:
  assumes "sorted (map cid d)"
  shows "print_rows d = load_data \<lparr>search_text = [], filter_selected = True, filter_timer = tm\<rparr> d \<and>
         sorted (map (\<lambda>c. (lesson c, cid c)) (print_rows d)) \<and>
         mset (print_rows d) = mset (filter selected d) \<and>
         print_collect d =
           concat (map (\<lambda>c. replicate (nat (copies c)) (lesson c, front c, back c))
             (print_rows d))"
proof -
  have r: "print_rows d = order_by_lesson_id (filter selected d)"
    using assms by (rule print_rows_id_order)
  have "load_data \<lparr>search_text = [], filter_selected = True, filter_timer = tm\<rparr> d =
          order_by_lesson_id (filter selected d)"
    by (simp add: load_data_def strip_def)
  moreover have "sorted (map (\<lambda>c. (lesson c, cid c)) (print_rows d))"
    unfolding r by (simp add: order_by_lesson_id_def)
  moreover have "mset (print_rows d) = mset (filter selected d)"
    unfolding r by (simp add: order_by_lesson_id_def)
  moreover have "print_collect d =
           concat (map (\<lambda>c. replicate (nat (copies c)) (lesson c, front c, back c))
             (print_rows d))"
  proof -
    have "expand = (\<lambda>c. replicate (nat (copies c)) (lesson c, front c, back c))"
      by (rule ext) (simp add: expand_def)
    then show ?thesis by (simp add: print_collect_def)
  qed
  ultimately show ?thesis using r by simp
qed

theorem print_cards_in_catalog_order_witness:
  "sorted (map cid
     [\<lparr>cid = 1, lesson = ''L2'', front = ''Uno'', back = ''One'', selected = True,
       copies = 1, printed_count = 0, printed_real = False, last_printed = None\<rparr>,
      \<lparr>cid = 2, lesson = ''L1'', front = ''Hola'', back = ''Hello'', selected = True,
       copies = 2, printed_count = 0, printed_real = False, last_printed = None\<rparr>,
      \<lparr>cid = 3, lesson = ''L1'', front = ''Si'', back = ''Yes'', selected = False,
       copies = 1, printed_count = 0, printed_real = False, last_printed = None\<rparr>,
      \<lparr>cid = 4, lesson = ''L1'', front = ''Adios'', back = ''Bye'', selected = True,
       copies = 1, printed_count = 0, printed_real = False, last_printed = None\<rparr>]) \<and>
   print_collect
     [\<lparr>cid = 1, lesson = ''L2'', front = ''Uno'', back = ''One'', selected = True,
       copies = 1, printed_count = 0, printed_real = False, last_printed = None\<rparr>,
      \<lparr>cid = 2, lesson = ''L1'', front = ''Hola'', back = ''Hello'', selected = True,
       copies = 2, printed_count = 0, printed_real = False, last_printed = None\<rparr>,
      \<lparr>cid = 3, lesson = ''L1'', front = ''Si'', back = ''Yes'', selected = False,
       copies = 1, printed_count = 0, printed_real = False, last_printed = None\<rparr>,
      \<lparr>cid = 4, lesson = ''L1'', front = ''Adios'', back = ''Bye'', selected = True,
       copies = 1, printed_count = 0, printed_real = False, last_printed = None\<rparr>] =
     [(''L1'', ''Hola'', ''Hello''), (''L1'', ''Hola'', ''Hello''), (''L1'', ''Adios'', ''Bye''),
      (''L2'', ''Uno'', ''One'')]"
proof -
  let ?d = "[\<lparr>cid = 1, lesson = ''L2'', front = ''Uno'', back = ''One'', selected = True,
       copies = 1, printed_count = 0, printed_real = False, last_printed = None\<rparr>,
      \<lparr>cid = 2, lesson = ''L1'', front = ''Hola'', back = ''Hello'', selected = True,
       copies = 2, printed_count = 0, printed_real = False, last_printed = None\<rparr>,
      \<lparr>cid = 3, lesson = ''L1'', front = ''Si'', back = ''Yes'', selected = False,
       copies = 1, printed_count = 0, printed_real = False, last_printed = None\<rparr>,
      \<lparr>cid = 4, lesson = ''L1'', front = ''Adios'', back = ''Bye'', selected = True,
       copies = 1, printed_count = 0, printed_real = False, last_printed = None\<rparr>]"
  have h: "sorted (map cid ?d)" by simp
  have rows: "map cid (load_data \<lparr>search_text = [], filter_selected = True, filter_timer = None\<rparr> ?d)
                = [2, 4, 1]"
    by (simp add: load_data_def strip_def order_by_lesson_id_def)
  from print_cards_in_catalog_order[OF h, of None]
  have "print_collect ?d =
           concat (map (\<lambda>c. replicate (nat (copies c)) (lesson c, front c, back c))
             (load_data \<lparr>search_text = [], filter_selected = True, filter_timer = None\<rparr> ?d))"
    by simp
  then show ?thesis using h
    by (simp add: load_data_def strip_def order_by_lesson_id_def numeral_2_eq_2)
qed

section \<open>The claim on the debounced search\<close>

lemma typing_append:
  "typing (xs @ ys) a =
     (case typing xs a of (a1, l1) \<Rightarrow> (case typing ys a1 of (a2, l2) \<Rightarrow> (a2, l1 @ l2)))"
proof (induction xs arbitrary: a)
  case Nil
  show ?case by (simp split: prod.splits)
next
  case (Cons x xs)
  obtain t dt where x: "x = (t, dt)" by (cases x)
  show ?case unfolding x by (simp add: Cons.IH split: prod.splits)
qed

lemma elapse_before_timeout:
  assumes "dt < 300"
  shows "elapse dt (text_changed t a) =
           (a\<lparr>search_text := t, filter_timer := Some (300 - dt)\<rparr>, [])"
  using assms by (simp add: elapse_def text_changed_def debounced_filter_def)

lemma elapse_after_timeout:
  assumes "300 \<le> dt"
  shows "elapse dt (text_changed t a) =
           (\<lparr>search_text = t, filter_selected = (t = [] \<and> filter_selected a),
             filter_timer = None\<rparr>,
            [\<lparr>search_text = t, filter_selected = (t = [] \<and> filter_selected a),
              filter_timer = None\<rparr>])"
  using assms
  by (simp add: elapse_def text_changed_def debounced_filter_def on_search_changed_def)

lemma typing_rapid:
  assumes "\<forall>c \<in> set changes. snd c < 300"
  shows "snd (typing changes a) = [] \<and>
         filter_selected (fst (typing changes a)) = filter_selected a"
  using assms
proof (induction changes arbitrary: a)
  case Nil
  show ?case by simp
next
  case (Cons c cs)
  obtain t dt where c: "c = (t, dt)" by (cases c)
  have dt: "dt < 300" using Cons.prems c by simp
  have rest: "\<forall>c \<in> set cs. snd c < 300" using Cons.prems by simp
  let ?a1 = "a\<lparr>search_text := t, filter_timer := Some (300 - dt)\<rparr>"
  from Cons.IH[OF rest, of ?a1]
  show ?case unfolding c
    by (simp add: elapse_before_timeout[OF dt] split: prod.splits)
qed

text \<open>
  Claim C9. A run of edits of the search box, each followed by less than 300 time units
  before the next, and a last edit followed by at least 300 quiet time units, calls
  \<^verbatim>\<open>load_data\<close> exactly once, after the quiet period, in a state whose search text is the
  last text (and with the timer stopped); every edit restarts the timer at 300.
\<close>

theorem debounce_commits_once_with_last_text:
  assumes "\<forall>c \<in> set changes. snd c < 300" and "300 \<le> dt_last"
  shows "typing (changes @ [(t_last, dt_last)]) a =
           (\<lparr>search_text = t_last, filter_selected = (t_last = [] \<and> filter_selected a),
             filter_timer = None\<rparr>,
            [\<lparr>search_text = t_last, filter_selected = (t_last = [] \<and> filter_selected a),
              filter_timer = None\<rparr>]) \<and>
         filter_timer (text_changed t b) = Some 300"
proof -
  obtain a1 l1 where r: "typing changes a = (a1, l1)" by (cases "typing changes a")
  from typing_rapid[OF assms(1), of a] r
  have l1: "l1 = []" and fs: "filter_selected a1 = filter_selected a" by simp_all
  have "typing (changes @ [(t_last, dt_last)]) a =
          (case elapse dt_last (text_changed t_last a1) of (a2, l2) \<Rightarrow> (a2, l2))"
    by (simp add: typing_append r l1 split: prod.splits)
  then have "typing (changes @ [(t_last, dt_last)]) a =
           (\<lparr>search_text = t_last, filter_selected = (t_last = [] \<and> filter_selected a),
             filter_timer = None\<rparr>,
            [\<lparr>search_text = t_last, filter_selected = (t_last = [] \<and> filter_selected a),
              filter_timer = None\<rparr>])"
    by (simp add: elapse_after_timeout[OF assms(2)] fs)
  moreover have "filter_timer (text_changed t b) = Some 300"
    by (simp add: text_changed_def debounced_filter_def)
  ultimately show ?thesis by simp
qed

theorem debounce_commits_once_with_last_text_witness:
  "(120::nat) < 300 \<and> (299::nat) < 300 \<and> (300::nat) \<le> 300 \<and>
   typing ([(''h'', 120), (''ho'', 299)] @ [(''hol'', 300)])
       \<lparr>search_text = [], filter_selected = True, filter_timer = None\<rparr> =
     (\<lparr>search_text = ''hol'', filter_selected = False, filter_timer = None\<rparr>,
      [\<lparr>search_text = ''hol'', filter_selected = False, filter_timer = None\<rparr>])"
  using debounce_commits_once_with_last_text
    [of "[(''h'', 120), (''ho'', 299)]" 300 "''hol''"
        "\<lparr>search_text = [], filter_selected = True, filter_timer = None\<rparr>"]
  by simp

section \<open>The claim on the query of the table view\<close>

lemma like_match_percent: "like_match [CHR ''%''] s"
  by (induction s) simp_all

lemma like_match_prefix:
  assumes "CHR ''%'' \<notin> set t" "CHR ''_'' \<notin> set t"
  shows "like_match (t @ [CHR ''%'']) s \<longleftrightarrow> prefix (map like_lower t) (map like_lower s)"
  using assms
proof (induction t arbitrary: s)
  case Nil
  show ?case by (simp add: like_match_percent)
next
  case (Cons p ps)
  then have p: "p \<noteq> CHR ''%''" "p \<noteq> CHR ''_''"
    and IH: "\<And>s. like_match (ps @ [CHR ''%'']) s \<longleftrightarrow> prefix (map like_lower ps) (map like_lower s)"
    by auto
  show ?case
  proof (cases s)
    case Nil
    then show ?thesis using p by simp
  next
    case (Cons c cs)
    then show ?thesis using p IH[of cs] by simp
  qed
qed

lemma like_match_any_run:
  "like_match (CHR ''%'' # q) s \<longleftrightarrow> (\<exists>ss. suffix ss s \<and> like_match q ss)"
proof (induction s)
  case Nil
  show ?case by (cases q) auto
next
  case (Cons c cs)
  have "like_match (CHR ''%'' # q) (c # cs) \<longleftrightarrow>
          like_match q (c # cs) \<or> like_match (CHR ''%'' # q) cs" by simp
  also have "\<dots> \<longleftrightarrow> like_match q (c # cs) \<or> (\<exists>ss. suffix ss cs \<and> like_match q ss)"
    using Cons.IH by simp
  also have "\<dots> \<longleftrightarrow> (\<exists>ss. suffix ss (c # cs) \<and> like_match q ss)"
    by (auto simp: suffix_Cons)
  finally show ?case .
qed

lemma sublist_map_iff:
  "sublist xs (map f s) \<longleftrightarrow> (\<exists>ss. suffix ss s \<and> prefix xs (map f ss))"
proof
  assume "sublist xs (map f s)"
  then obtain ys' where y: "suffix ys' (map f s)" "prefix xs ys'"
    unfolding sublist_altdef' by blast
  from y(1) obtain zs where "map f s = zs @ ys'" unfolding suffix_def by blast
  then obtain us vs where "s = us @ vs" "ys' = map f vs"
    by (auto simp: map_eq_append_conv)
  then have "suffix vs s" "prefix xs (map f vs)" using y(2) by (auto simp: suffix_def)
  then show "\<exists>ss. suffix ss s \<and> prefix xs (map f ss)" by blast
next
  assume "\<exists>ss. suffix ss s \<and> prefix xs (map f ss)"
  then obtain ss where ss: "suffix ss s" "prefix xs (map f ss)" by blast
  from ss(1) have "suffix (map f ss) (map f s)" by (auto simp: suffix_def)
  then show "sublist xs (map f s)" unfolding sublist_altdef' using ss(2) by blast
qed

lemma like_match_contains:
  assumes "CHR ''%'' \<notin> set t" "CHR ''_'' \<notin> set t"
  shows "like_match (CHR ''%'' # t @ [CHR ''%'']) s \<longleftrightarrow> contains_nocase t s"
  unfolding like_match_any_run like_match_prefix[OF assms] contains_nocase_def sublist_map_iff
  by simp

lemma like_any_contains:
  assumes "CHR ''%'' \<notin> set t" "CHR ''_'' \<notin> set t"
  shows "like_any (CHR ''%'' # t @ [CHR ''%'']) c \<longleftrightarrow> contains_any t c"
  by (simp add: like_any_def contains_any_def like_match_contains[OF assms])


text \<open>
  Claim C6, as stated, fails: the search text is not looked for as a substring. For the
  text \<^verbatim>\<open>_\<close> the pattern of the query is \<^verbatim>\<open>%_%\<close>, which matches every non-empty
  field, so a card none of whose fields contains an underscore is returned.
\<close>

theorem search_is_like_pattern_counterexample:
  "load_data \<lparr>search_text = ''_'', filter_selected = False, filter_timer = None\<rparr>
     [\<lparr>cid = 1, lesson = ''L1'', front = ''Hola'', back = ''Hello'', selected = False,
       copies = 1, printed_count = 0, printed_real = False, last_printed = None\<rparr>]
     = [\<lparr>cid = 1, lesson = ''L1'', front = ''Hola'', back = ''Hello'', selected = False,
       copies = 1, printed_count = 0, printed_real = False, last_printed = None\<rparr>] \<and>
   \<not> contains_any ''_''
     \<lparr>cid = 1, lesson = ''L1'', front = ''Hola'', back = ''Hello'', selected = False,
       copies = 1, printed_count = 0, printed_real = False, last_printed = None\<rparr> \<and>
   \<not> sublist ''_'' ''L1'' \<and> \<not> sublist ''_'' ''Hola'' \<and> \<not> sublist ''_'' ''Hello''"
  by code_simp

text \<open>
  Claim C6, amended. With \<open>t\<close> the text of the search box stripped of white space at both
  ends, \<^verbatim>\<open>load_data\<close> returns each row of the table once or not at all: when \<open>t\<close> is not
  empty, the rows of which the lesson, the front or the back matches the \<^verbatim>\<open>LIKE\<close>
  pattern \<^verbatim>\<open>%t%\<close>, whatever \<^verbatim>\<open>filter_selected\<close> is; when \<open>t\<close> is empty and
  \<^verbatim>\<open>filter_selected\<close> is set, the selected rows; otherwise all rows. The result is ordered
  by lesson and, among equal lessons, by id. When \<open>t\<close> holds neither \<^verbatim>\<open>%\<close> nor \<^verbatim>\<open>_\<close>, a row
  matches the pattern exactly when one of the three fields contains \<open>t\<close> as a substring,
  the ASCII letters compared without regard to case.
\<close>

theorem load_data_query:
  "mset (load_data a d) =
     mset (filter
       (\<lambda>c. if strip (search_text a) \<noteq> []
            then like_any (CHR ''%'' # strip (search_text a) @ [CHR ''%'']) c
            else if filter_selected a then selected c else True) d) \<and>
   sorted (map (\<lambda>c. (lesson c, cid c)) (load_data a d)) \<and>
   (CHR ''%'' \<notin> set (strip (search_text a)) \<and> CHR ''_'' \<notin> set (strip (search_text a)) \<longrightarrow>
      like_any (CHR ''%'' # strip (search_text a) @ [CHR ''%'']) c =
        contains_any (strip (search_text a)) c)"
proof -
  have "mset (load_data a d) =
     mset (filter
       (\<lambda>c. if strip (search_text a) \<noteq> []
            then like_any (CHR ''%'' # strip (search_text a) @ [CHR ''%'']) c
            else if filter_selected a then selected c else True) d)"
    by (simp add: load_data_def order_by_lesson_id_def Let_def)
  moreover have "sorted (map (\<lambda>c. (lesson c, cid c)) (load_data a d))"
    by (simp add: load_data_def order_by_lesson_id_def Let_def)
  ultimately show ?thesis using like_any_contains[of "strip (search_text a)" c] by blast
qed

theorem load_data_query_witness:
  "CHR ''%'' \<notin> set (strip (search_text
      \<lparr>search_text = '' hol '', filter_selected = True, filter_timer = None\<rparr>)) \<and>
   CHR ''_'' \<notin> set (strip (search_text
      \<lparr>search_text = '' hol '', filter_selected = True, filter_timer = None\<rparr>)) \<and>
   like_any (CHR ''%'' # strip (search_text
      \<lparr>search_text = '' hol '', filter_selected = True, filter_timer = None\<rparr>) @ [CHR ''%''])
     \<lparr>cid = 1, lesson = ''L1'', front = ''Hola'', back = ''Hello'', selected = False,
       copies = 1, printed_count = 0, printed_real = False, last_printed = None\<rparr> =
   contains_any (strip (search_text
      \<lparr>search_text = '' hol '', filter_selected = True, filter_timer = None\<rparr>))
     \<lparr>cid = 1, lesson = ''L1'', front = ''Hola'', back = ''Hello'', selected = False,
       copies = 1, printed_count = 0, printed_real = False, last_printed = None\<rparr> \<and>
   mset (load_data \<lparr>search_text = '' hol '', filter_selected = True, filter_timer = None\<rparr>
     [\<lparr>cid = 1, lesson = ''L1'', front = ''Hola'', back = ''Hello'', selected = False,
       copies = 1, printed_count = 0, printed_real = False, last_printed = None\<rparr>]) =
   {#\<lparr>cid = 1, lesson = ''L1'', front = ''Hola'', back = ''Hello'', selected = False,
       copies = 1, printed_count = 0, printed_real = False, last_printed = None\<rparr>#}"
proof -
  let ?a = "\<lparr>search_text = '' hol '', filter_selected = True, filter_timer = None\<rparr>"
  let ?c = "\<lparr>cid = 1, lesson = ''L1'', front = ''Hola'', back = ''Hello'', selected = False,
       copies = 1, printed_count = 0, printed_real = False, last_printed = None\<rparr>"
  have t: "strip (search_text ?a) = ''hol''"
    by (simp add: strip_def is_space_def)
  have m: "like_any ''%hol%'' ?c"
    by code_simp
  from load_data_query[of ?a "[?c]" ?c] show ?thesis
    unfolding t using m by simp
qed

end
